theory Spec2Isabelle
  imports Main "HOL-Library.Word"
begin

section \<open>Python values and dictionaries\<close>

text \<open>
  Configuration values are Python objects. A float is its IEEE binary64 bit pattern; the
  rounding done by Python's \<^verbatim>\<open>float()\<close> is not computed here but taken from the
  environment (see \<open>world\<close> below). Strings are \<open>string\<close>; a \<open>char\<close> stands for a code
  point below 256.
\<close>

datatype pyval =
    VNone
  | VBool bool
  | VInt int
  | VFloat "64 word"
  | VStr string
  | VList "pyval list"
  | VDict "(string \<times> pyval) list"

text \<open>
  A Python dict is an association list in insertion order. Assigning to an existing key
  keeps the key's position; a new key goes to the end.
\<close>

type_synonym 'v pydict = "(string \<times> 'v) list"

definition dict_get :: "'v pydict \<Rightarrow> string \<Rightarrow> 'v option" where
  "dict_get d k = map_of d k"

primrec dict_set :: "'v pydict \<Rightarrow> string \<Rightarrow> 'v \<Rightarrow> 'v pydict" where
  "dict_set [] k v = [(k, v)]"
| "dict_set (p # ps) k v = (if fst p = k then (k, v) # ps else p # dict_set ps k v)"

text \<open>\<^verbatim>\<open>d.update(other)\<close>: every item of \<open>other\<close>, in order, is assigned into \<open>d\<close>.\<close>

definition dict_update :: "'v pydict \<Rightarrow> 'v pydict \<Rightarrow> 'v pydict" where
  "dict_update d other = fold (\<lambda>kv acc. dict_set acc (fst kv) (snd kv)) other d"

section \<open>String builtins\<close>

definition quote_chars :: string where
  "quote_chars = [CHR 0x27, CHR 0x22]"

definition whitespace_chars :: string where
  "whitespace_chars =
     [CHR 0x09, CHR 0x0A, CHR 0x0B, CHR 0x0C, CHR 0x0D, CHR 0x1C, CHR 0x1D, CHR 0x1E,
      CHR 0x1F, CHR 0x20, CHR 0x85, CHR 0xA0]"

text \<open>\<^verbatim>\<open>s.strip(chars)\<close> removes every leading and every trailing character that is in \<open>chars\<close>.\<close>

definition strip_chars :: "string \<Rightarrow> string \<Rightarrow> string" where
  "strip_chars chars s =
     rev (dropWhile (\<lambda>c. c \<in> set chars) (rev (dropWhile (\<lambda>c. c \<in> set chars) s)))"

definition strip :: "string \<Rightarrow> string" where
  "strip s = strip_chars whitespace_chars s"

definition lower_char :: "char \<Rightarrow> char" where
  "lower_char c =
     (let n = (of_char c :: nat)
      in if (65 \<le> n \<and> n \<le> 90) \<or> (192 \<le> n \<and> n \<le> 222 \<and> n \<noteq> 215)
         then char_of (n + 32) else c)"

definition lower :: "string \<Rightarrow> string" where
  "lower s = map lower_char s"

definition startswith_char :: "string \<Rightarrow> char \<Rightarrow> bool" where
  "startswith_char s c = (case s of [] \<Rightarrow> False | x # _ \<Rightarrow> x = c)"

definition endswith :: "string \<Rightarrow> string \<Rightarrow> bool" where
  "endswith s suf = (length suf \<le> length s \<and> drop (length s - length suf) s = suf)"

text \<open>\<^verbatim>\<open>line.split('=', 1)\<close> on a line that contains \<open>=\<close>: the text before the first \<open>=\<close> and the text after it.\<close>

definition split_eq :: "string \<Rightarrow> string \<times> string" where
  "split_eq line =
     (takeWhile (\<lambda>c. c \<noteq> CHR ''='') line, tl (dropWhile (\<lambda>c. c \<noteq> CHR ''='') line))"

text \<open>Iterating over a text file yields its lines, each with its newline.\<close>

fun file_lines :: "string \<Rightarrow> string list" where
  "file_lines [] = []"
| "file_lines (c # cs) =
     (if c = CHR 0x0A then [c] # file_lines cs
      else (case file_lines cs of [] \<Rightarrow> [[c]] | l # ls \<Rightarrow> (c # l) # ls))"

subsection \<open>The builtin \<^verbatim>\<open>int()\<close> on a string\<close>

text \<open>
  Surrounding whitespace is ignored; then an optional sign and a non-empty run of decimal
  digits, where a single underscore may stand between two digits. Anything else is a
  ValueError, here \<open>None\<close>. (The interpreter's limit on the number of digits is not modelled.)
\<close>

definition is_digit :: "char \<Rightarrow> bool" where
  "is_digit c = (c \<in> set ''0123456789'')"

definition digit_val :: "char \<Rightarrow> nat" where
  "digit_val c = of_char c - 48"

fun parse_digits :: "string \<Rightarrow> nat \<Rightarrow> nat option" where
  "parse_digits [] acc = Some acc"
| "parse_digits [c] acc = (if is_digit c then Some (acc * 10 + digit_val c) else None)"
| "parse_digits (c # d # ds) acc =
     (if is_digit c then parse_digits (d # ds) (acc * 10 + digit_val c)
      else if c = CHR ''_'' \<and> is_digit d then parse_digits ds (acc * 10 + digit_val d)
      else None)"

definition parse_nat :: "string \<Rightarrow> nat option" where
  "parse_nat s =
     (case s of [] \<Rightarrow> None
      | c # cs \<Rightarrow> if is_digit c then parse_digits cs (digit_val c) else None)"

definition py_int :: "string \<Rightarrow> int option" where
  "py_int s =
     (case strip s of [] \<Rightarrow> None
      | c # cs \<Rightarrow>
          if c = CHR ''-'' then map_option (\<lambda>n. - int n) (parse_nat cs)
          else if c = CHR ''+'' then map_option int (parse_nat cs)
          else map_option int (parse_nat (c # cs)))"

section \<open>The environment\<close>

text \<open>
  What the program reads from outside itself: the file system, the JSON library and the
  builtin \<^verbatim>\<open>float()\<close>.
  \<^item> \<open>fs path\<close> is what opening and reading \<open>path\<close> gives: no such file, another failure
    (permissions, a directory, undecodable bytes), or the text as text mode delivers it,
    every line end a newline.
  \<^item> \<open>json_load text\<close> is \<open>None\<close> when the text is not a JSON document (JSONDecodeError)
    and \<open>Some d\<close> for a document whose top level is an object with the items \<open>d\<close>.
    A document with another top level is outside this model.
  \<^item> \<open>py_float s\<close> is \<open>None\<close> when \<^verbatim>\<open>float(s)\<close> raises ValueError.
\<close>

datatype file_state = Missing | Unreadable | Text string

record world =
  fs :: "string \<Rightarrow> file_state"
  json_load :: "string \<Rightarrow> pyval pydict option"
  py_float :: "string \<Rightarrow> 64 word option"

section \<open>Value coercion\<close>

definition convert_value :: "world \<Rightarrow> string \<Rightarrow> pyval" where
  "convert_value w value_str =
     (let value_str = strip_chars quote_chars value_str
      in if lower value_str \<in> set [''true'', ''yes'', ''on''] then VBool True
         else if lower value_str \<in> set [''false'', ''no'', ''off''] then VBool False
         else (case (if CHR ''.'' \<in> set value_str
                     then map_option VFloat (py_float w value_str)
                     else map_option VInt (py_int value_str))
               of Some v \<Rightarrow> v
                | None \<Rightarrow> VStr value_str))"

section \<open>Loading a file\<close>

datatype exc_class = ValueError | FileNotFoundError | OSError | JSONDecodeError

text \<open>The loop over the lines of a \<open>key=value\<close> file, with the dict built so far.\<close>

fun load_lines :: "world \<Rightarrow> string list \<Rightarrow> pyval pydict \<Rightarrow> pyval pydict" where
  "load_lines w [] config = config"
| "load_lines w (line # rest) config =
     (let line = strip line
      in if line \<noteq> [] \<and> \<not> startswith_char line (CHR ''#'')
         then if CHR ''='' \<in> set line
              then (case split_eq line of
                      (key, val) \<Rightarrow>
                        load_lines w rest
                          (dict_set config (strip key) (convert_value w (strip val))))
              else load_lines w rest config
         else load_lines w rest config)"

text \<open>The body of the \<^verbatim>\<open>try\<close> block: the exception it raises, or the dict it returns.\<close>

definition read_config :: "world \<Rightarrow> string \<Rightarrow> exc_class + pyval pydict" where
  "read_config w file_path =
     (case fs w file_path of
        Missing \<Rightarrow> Inl FileNotFoundError
      | Unreadable \<Rightarrow> Inl OSError
      | Text txt \<Rightarrow>
          if endswith file_path ''.json''
          then (case json_load w txt of None \<Rightarrow> Inl JSONDecodeError | Some d \<Rightarrow> Inr d)
          else Inr (load_lines w (file_lines txt) []))"

text \<open>
  The two handlers: \<^verbatim>\<open>except FileNotFoundError\<close> and \<^verbatim>\<open>except Exception\<close> both print a
  line (standard output is not modelled) and return the empty dict.
\<close>

definition load_from_file :: "world \<Rightarrow> string \<Rightarrow> pyval pydict" where
  "load_from_file w file_path =
     (case read_config w file_path of
        Inl e \<Rightarrow> (if e = FileNotFoundError then [] else [])
      | Inr config \<Rightarrow> config)"

section \<open>Objects, the store and the trace of calls\<close>

text \<open>
  A source is any Python object. The model keeps what \<open>parse\<close> can observe of it:
  its type, whether it is a dict (and then its items), whether it is a str (and then its
  text), and whether it has an attribute \<open>to_dict\<close> (and then the mapping a call returns).
\<close>

record source =
  py_type :: string
  dict_items :: "pyval pydict option"
  str_value :: "string option"
  to_dict :: "pyval pydict option"

datatype event =
    OpenFile string
  | CallToDict source
  | CallTransformer string pyval
  | CallValidator string pyval

text \<open>An f-string is kept as its literal parts and the values put between them.\<close>

datatype piece = Lit string | ArgStr string | ArgVal pyval | ArgType string

datatype exception = Raise exc_class "piece list"

text \<open>
  Dict objects live in a store and are named by their address, so that two names of one
  object, and a copy of an object, are told apart. There is one store for the dicts of
  configuration values, one for the validator registries and one for the transformer
  registries. The trace records every file opened and every call of a \<open>to_dict\<close>, a
  transformer or a validator, in order.
\<close>

type_synonym addr = nat

record pstate =
  heap :: "pyval pydict list"
  vheap :: "(pyval \<Rightarrow> bool) pydict list"
  theap :: "(pyval \<Rightarrow> pyval) pydict list"
  trace :: "event list"

definition alloc :: "pyval pydict \<Rightarrow> pstate \<Rightarrow> addr \<times> pstate" where
  "alloc d s = (length (heap s), s\<lparr>heap := heap s @ [d]\<rparr>)"

definition obj_update :: "addr \<Rightarrow> pyval pydict \<Rightarrow> pstate \<Rightarrow> pstate" where
  "obj_update a other s = s\<lparr>heap := (heap s)[a := dict_update (heap s ! a) other]\<rparr>"

definition obj_set :: "addr \<Rightarrow> string \<Rightarrow> pyval \<Rightarrow> pstate \<Rightarrow> pstate" where
  "obj_set a k v s = s\<lparr>heap := (heap s)[a := dict_set (heap s ! a) k v]\<rparr>"

definition log :: "event \<Rightarrow> pstate \<Rightarrow> pstate" where
  "log e s = s\<lparr>trace := trace s @ [e]\<rparr>"

section \<open>ConfigurationParser\<close>

text \<open>
  The instance holds references to its base dict and to its two registries. Validators and
  transformers are total functions: a callable that raises is outside this model.
\<close>

record config_parser =
  config :: addr
  validators :: addr
  transformers :: addr

definition init :: "pyval pydict \<Rightarrow> pstate \<Rightarrow> config_parser \<times> pstate" where
  "init default_config s =
     (\<lparr>config = length (heap s), validators = length (vheap s),
       transformers = length (theap s)\<rparr>,
      s\<lparr>heap := heap s @ [default_config], vheap := vheap s @ [[]],
        theap := theap s @ [[]]\<rparr>)"

definition add_validator ::
  "config_parser \<Rightarrow> string \<Rightarrow> (pyval \<Rightarrow> bool) \<Rightarrow> pstate \<Rightarrow> pstate" where
  "add_validator self key validator_func s =
     s\<lparr>vheap := (vheap s)[validators self :=
                     dict_set (vheap s ! validators self) key validator_func]\<rparr>"

definition add_transformer ::
  "config_parser \<Rightarrow> string \<Rightarrow> (pyval \<Rightarrow> pyval) \<Rightarrow> pstate \<Rightarrow> pstate" where
  "add_transformer self key transformer_func s =
     s\<lparr>theap := (theap s)[transformers self :=
                     dict_set (theap s ! transformers self) key transformer_func]\<rparr>"

definition unsupported_error :: "string \<Rightarrow> exception" where
  "unsupported_error ty = Raise ValueError [Lit ''Unsupported config source type: '', ArgType ty]"

definition validation_error :: "string \<Rightarrow> pyval \<Rightarrow> exception" where
  "validation_error key v =
     Raise ValueError
       [Lit (''Validation failed for config key '' @ [CHR 0x27]), ArgStr key,
        Lit ([CHR 0x27] @ '': ''), ArgVal v]"

text \<open>The loop over the sources; \<open>r\<close> is the address of \<open>result\<close>.\<close>

fun merge_sources ::
  "world \<Rightarrow> addr \<Rightarrow> source list \<Rightarrow> pstate \<Rightarrow> exception option \<times> pstate" where
  "merge_sources w r [] s = (None, s)"
| "merge_sources w r (src # rest) s =
     (case dict_items src of
        Some d \<Rightarrow> merge_sources w r rest (obj_update r d s)
      | None \<Rightarrow>
          (case str_value src of
             Some file_path \<Rightarrow>
               merge_sources w r rest
                 (obj_update r (load_from_file w file_path) (log (OpenFile file_path) s))
           | None \<Rightarrow>
               (case to_dict src of
                  Some d \<Rightarrow> merge_sources w r rest (obj_update r d (log (CallToDict src) s))
                | None \<Rightarrow> (Some (unsupported_error (py_type src)), s))))"

text \<open>
  The loop over \<open>result.items()\<close>. The loop assigns only to the key it is visiting, so the
  items it sees are those of the dict as it was when the loop began.
\<close>

fun apply_transformers ::
  "(pyval \<Rightarrow> pyval) pydict \<Rightarrow> addr \<Rightarrow> pyval pydict \<Rightarrow> pstate \<Rightarrow> pstate" where
  "apply_transformers ts r [] s = s"
| "apply_transformers ts r (item # items) s =
     (case dict_get ts (fst item) of
        Some f \<Rightarrow>
          apply_transformers ts r items
            (obj_set r (fst item) (f (snd item)) (log (CallTransformer (fst item) (snd item)) s))
      | None \<Rightarrow> apply_transformers ts r items s)"

text \<open>The loop over \<open>self.validators.items()\<close>; \<open>c\<close> is the address of the dict to check.\<close>

fun validate_config ::
  "(pyval \<Rightarrow> bool) pydict \<Rightarrow> addr \<Rightarrow> pstate \<Rightarrow> exception option \<times> pstate" where
  "validate_config [] c s = (None, s)"
| "validate_config (item # items) c s =
     (case dict_get (heap s ! c) (fst item) of
        Some v \<Rightarrow>
          (if \<not> (snd item) v
           then (Some (validation_error (fst item) v), log (CallValidator (fst item) v) s)
           else validate_config items c (log (CallValidator (fst item) v) s))
      | None \<Rightarrow> validate_config items c s)"

definition parse ::
  "world \<Rightarrow> config_parser \<Rightarrow> source list \<Rightarrow> pyval pydict \<Rightarrow> pstate
     \<Rightarrow> (exception + addr) \<times> pstate" where
  "parse w self sources overrides s =
     (case alloc (heap s ! config self) s of
        (r, s1) \<Rightarrow>
          (case merge_sources w r sources s1 of
             (Some e, s2) \<Rightarrow> (Inl e, s2)
           | (None, s2) \<Rightarrow>
               (let s3 = obj_update r overrides s2;
                    s4 = apply_transformers (theap s3 ! transformers self) r (heap s3 ! r) s3
                in case validate_config (vheap s4 ! validators self) r s4 of
                     (Some e, s5) \<Rightarrow> (Inl e, s5)
                   | (None, s5) \<Rightarrow> (Inr r, s5))))"

text \<open>The steps of \<open>parse\<close> that follow the loop over the sources, as a function of their own.\<close>

definition finish_parse ::
  "config_parser \<Rightarrow> addr \<Rightarrow> pyval pydict \<Rightarrow> pstate \<Rightarrow> (exception + addr) \<times> pstate" where
  "finish_parse self r overrides s2 =
     (let s3 = obj_update r overrides s2;
          s4 = apply_transformers (theap s3 ! transformers self) r (heap s3 ! r) s3
      in case validate_config (vheap s4 ! validators self) r s4 of
           (Some e, s5) \<Rightarrow> (Inl e, s5)
         | (None, s5) \<Rightarrow> (Inr r, s5))"

text \<open>What the caller of \<open>parse\<close> gets: the exception, or the items of the dict returned.\<close>

definition returned :: "(exception + addr) \<times> pstate \<Rightarrow> exception + pyval pydict" where
  "returned x = (case fst x of Inl e \<Rightarrow> Inl e | Inr r \<Rightarrow> Inr (heap (snd x) ! r))"

section \<open>Vocabulary for the properties\<close>

text \<open>A source is supported when one of the three branches of the dispatch takes it.\<close>

definition supported :: "source \<Rightarrow> bool" where
  "supported src = (dict_items src \<noteq> None \<or> str_value src \<noteq> None \<or> to_dict src \<noteq> None)"

text \<open>The mapping a source contributes, and the calls made to obtain it.\<close>

definition contributed :: "world \<Rightarrow> source \<Rightarrow> pyval pydict" where
  "contributed w src =
     (case dict_items src of
        Some d \<Rightarrow> d
      | None \<Rightarrow> (case str_value src of
                   Some file_path \<Rightarrow> load_from_file w file_path
                 | None \<Rightarrow> (case to_dict src of Some d \<Rightarrow> d | None \<Rightarrow> [])))"

definition source_events :: "source \<Rightarrow> event list" where
  "source_events src =
     (case dict_items src of
        Some d \<Rightarrow> []
      | None \<Rightarrow> (case str_value src of
                   Some file_path \<Rightarrow> [OpenFile file_path]
                 | None \<Rightarrow> (case to_dict src of Some d \<Rightarrow> [CallToDict src] | None \<Rightarrow> [])))"

text \<open>The base with the sources merged in, before the overrides; and with the overrides.\<close>

definition pre_override :: "world \<Rightarrow> pyval pydict \<Rightarrow> source list \<Rightarrow> pyval pydict" where
  "pre_override w base sources = foldl dict_update base (map (contributed w) sources)"

definition merged ::
  "world \<Rightarrow> pyval pydict \<Rightarrow> source list \<Rightarrow> pyval pydict \<Rightarrow> pyval pydict" where
  "merged w base sources overrides = dict_update (pre_override w base sources) overrides"

definition transform_value :: "(pyval \<Rightarrow> pyval) pydict \<Rightarrow> string \<Rightarrow> pyval \<Rightarrow> pyval" where
  "transform_value ts k v = (case dict_get ts k of Some f \<Rightarrow> f v | None \<Rightarrow> v)"

definition transform_item ::
  "(pyval \<Rightarrow> pyval) pydict \<Rightarrow> string \<times> pyval \<Rightarrow> string \<times> pyval" where
  "transform_item ts item = (fst item, transform_value ts (fst item) (snd item))"

definition transformer_calls :: "(pyval \<Rightarrow> pyval) pydict \<Rightarrow> pyval pydict \<Rightarrow> event list" where
  "transformer_calls ts items =
     map (\<lambda>item. CallTransformer (fst item) (snd item))
       (filter (\<lambda>item. dict_get ts (fst item) \<noteq> None) items)"

text \<open>A registry entry rejects a dict when the dict has its key and its predicate is false there.\<close>

definition rejects :: "pyval pydict \<Rightarrow> string \<times> (pyval \<Rightarrow> bool) \<Rightarrow> bool" where
  "rejects d item = (case dict_get d (fst item) of Some v \<Rightarrow> \<not> (snd item) v | None \<Rightarrow> False)"

definition validator_calls :: "pyval pydict \<Rightarrow> (pyval \<Rightarrow> bool) pydict \<Rightarrow> event list" where
  "validator_calls d items =
     concat (map (\<lambda>item. case dict_get d (fst item) of
                            Some v \<Rightarrow> [CallValidator (fst item) v]
                          | None \<Rightarrow> []) items)"

text \<open>The events a call has added to the trace.\<close>

definition new_events :: "pstate \<Rightarrow> pstate \<Rightarrow> event list" where
  "new_events s s' = drop (length (trace s)) (trace s')"

section \<open>The coercion rule as the specification words it\<close>



section \<open>The example of the source file\<close>

text \<open>
  The parser, validators and transformer that the source file builds under
  \<^verbatim>\<open>if __name__ == "__main__"\<close>, and a small environment: the sample file of the source, a
  file that is not JSON, and a file that cannot be read.
\<close>

definition sample_config_content :: string where
  "sample_config_content =
     ''# Sample configuration'' @ [CHR 0x0A] @ ''debug=true'' @ [CHR 0x0A] @
     ''port=9000'' @ [CHR 0x0A] @ ''host=0.0.0.0'' @ [CHR 0x0A] @
     ''max_connections=500'' @ [CHR 0x0A] @ ''api_key=secret123'' @ [CHR 0x0A]"

definition demo_world :: world where
  "demo_world =
     \<lparr>fs = (\<lambda>p. if p = ''sample_config.txt'' then Text sample_config_content
                 else if p = ''broken.json'' then Text ''{''
                 else if p = ''locked.txt'' then Unreadable
                 else Missing),
      json_load = (\<lambda>t. if t = ''{}'' then Some [] else None),
      py_float = (\<lambda>t. if t = ''3.14'' then Some 0x40091EB851EB851F else None)\<rparr>"

text \<open>\<^verbatim>\<open>lambda x: isinstance(x, int) and 1 <= x <= 65535\<close>; a bool is an int (True is 1).\<close>

definition port_validator :: "pyval \<Rightarrow> bool" where
  "port_validator x =
     (case x of VInt n \<Rightarrow> 1 \<le> n \<and> n \<le> 65535 | VBool b \<Rightarrow> b | _ \<Rightarrow> False)"

text \<open>\<^verbatim>\<open>lambda x: isinstance(x, int) and x > 0\<close>\<close>

definition max_connections_validator :: "pyval \<Rightarrow> bool" where
  "max_connections_validator x = (case x of VInt n \<Rightarrow> 0 < n | VBool b \<Rightarrow> b | _ \<Rightarrow> False)"

text \<open>\<^verbatim>\<open>lambda x: x.lower().strip()\<close>, on a str (on another value the lambda raises).\<close>

definition host_transformer :: "pyval \<Rightarrow> pyval" where
  "host_transformer x = (case x of VStr t \<Rightarrow> VStr (strip (lower t)) | _ \<Rightarrow> x)"

definition empty_state :: pstate where
  "empty_state = \<lparr>heap = [], vheap = [], theap = [], trace = []\<rparr>"

definition demo_defaults :: "pyval pydict" where
  "demo_defaults =
     [(''debug'', VBool False), (''port'', VInt 8000), (''host'', VStr ''localhost''),
      (''max_connections'', VInt 100)]"

definition demo_parser :: config_parser where
  "demo_parser = fst (init demo_defaults empty_state)"

definition demo_state :: pstate where
  "demo_state =
     add_transformer demo_parser ''host'' host_transformer
       (add_validator demo_parser ''max_connections'' max_connections_validator
          (add_validator demo_parser ''port'' port_validator
             (snd (init demo_defaults empty_state))))"

definition dict_source :: "pyval pydict \<Rightarrow> source" where
  "dict_source d = \<lparr>py_type = ''dict'', dict_items = Some d, str_value = None, to_dict = None\<rparr>"






section \<open>Lemmas: dictionaries\<close>

lemma dict_get_set: "dict_get (dict_set d k v) k' = (if k' = k then Some v else dict_get d k')"
  by (induction d) (auto simp: dict_get_def)

lemma keys_dict_set:
  "map fst (dict_set d k v) = (if k \<in> set (map fst d) then map fst d else map fst d @ [k])"
  by (induction d) auto

lemma distinct_dict_set: "distinct (map fst d) \<Longrightarrow> distinct (map fst (dict_set d k v))"
  by (simp add: keys_dict_set)

lemma dict_set_mid:
  "k \<notin> fst ` set pre \<Longrightarrow> dict_set (pre @ (k, v) # post) k v' = pre @ (k, v') # post"
  by (induction pre) auto

lemma dict_update_Nil: "dict_update d [] = d"
  by (simp add: dict_update_def)

lemma dict_update_Cons:
  "dict_update d (kv # other) = dict_update (dict_set d (fst kv) (snd kv)) other"
  by (simp add: dict_update_def)

lemma distinct_dict_update:
  "distinct (map fst d) \<Longrightarrow> distinct (map fst (dict_update d other))"
  by (induction other arbitrary: d)
     (simp_all add: dict_update_Nil dict_update_Cons distinct_dict_set)

lemma dict_get_None_iff: "dict_get d k = None \<longleftrightarrow> k \<notin> fst ` set d"
  by (simp add: dict_get_def map_of_eq_None_iff)

lemma dict_get_Cons:
  "dict_get (kv # d) k = (if fst kv = k then Some (snd kv) else dict_get d k)"
  by (cases kv) (auto simp: dict_get_def)

lemma dict_get_update_notin:
  "dict_get other k = None \<Longrightarrow> dict_get (dict_update d other) k = dict_get d k"
  by (induction other arbitrary: d)
     (auto simp: dict_update_Nil dict_update_Cons dict_get_set dict_get_Cons split: if_splits)

lemma dict_get_update_in:
  "distinct (map fst other) \<Longrightarrow> dict_get other k = Some v \<Longrightarrow>
   dict_get (dict_update d other) k = Some v"
proof (induction other arbitrary: d)
  case Nil
  then show ?case by (simp add: dict_get_def)
next
  case (Cons kv other)
  show ?case
  proof (cases "fst kv = k")
    case True
    with Cons.prems have "snd kv = v" and "dict_get other k = None"
      by (auto simp: dict_get_def map_of_eq_None_iff)
    then show ?thesis using True
      by (simp add: dict_update_Cons dict_get_update_notin dict_get_set)
  next
    case False
    with Cons.prems have "dict_get other k = Some v" and "distinct (map fst other)"
      by (auto simp: dict_get_def)
    then show ?thesis using Cons.IH by (simp add: dict_update_Cons)
  qed
qed

lemma dict_get_transform:
  "dict_get (map (transform_item ts) d) k = map_option (transform_value ts k) (dict_get d k)"
  by (induction d) (auto simp: dict_get_def transform_item_def)

lemma fst_transform_item: "fst (transform_item ts item) = fst item"
  by (simp add: transform_item_def)

section \<open>Lemmas: the store\<close>

lemma log_simps [simp]:
  "heap (log e s) = heap s"
  "vheap (log e s) = vheap s"
  "theap (log e s) = theap s"
  "trace (log e s) = trace s @ [e]"
  by (simp_all add: log_def)

lemma obj_update_simps [simp]:
  "heap (obj_update a other s) = (heap s)[a := dict_update (heap s ! a) other]"
  "vheap (obj_update a other s) = vheap s"
  "theap (obj_update a other s) = theap s"
  "trace (obj_update a other s) = trace s"
  by (simp_all add: obj_update_def)

lemma obj_set_simps [simp]:
  "heap (obj_set a k v s) = (heap s)[a := dict_set (heap s ! a) k v]"
  "vheap (obj_set a k v s) = vheap s"
  "theap (obj_set a k v s) = theap s"
  "trace (obj_set a k v s) = trace s"
  by (simp_all add: obj_set_def)

lemma heap_eq_snoc:
  assumes "length h' = Suc (length h)" and "\<And>a. a < length h \<Longrightarrow> h' ! a = h ! a"
  shows "h' = h @ [h' ! length h]"
  using assms by (intro nth_equalityI) (auto simp: nth_append less_Suc_eq)

section \<open>Lemmas: the loop over the sources\<close>

lemma merge_sources_regs:
  "vheap (snd (merge_sources w r srcs s)) = vheap s \<and>
   theap (snd (merge_sources w r srcs s)) = theap s"
  by (induction w r srcs s rule: merge_sources.induct) (auto split: option.splits)

lemma merge_sources_length: "length (heap (snd (merge_sources w r srcs s))) = length (heap s)"
  by (induction w r srcs s rule: merge_sources.induct) (auto split: option.splits)

lemma merge_sources_frame:
  "a \<noteq> r \<Longrightarrow> heap (snd (merge_sources w r srcs s)) ! a = heap s ! a"
  by (induction w r srcs s rule: merge_sources.induct) (auto split: option.splits)

lemma merge_sources_None_iff:
  "fst (merge_sources w r srcs s) = None \<longleftrightarrow> (\<forall>src \<in> set srcs. supported src)"
  by (induction w r srcs s rule: merge_sources.induct)
     (auto simp: supported_def split: option.splits)


lemma merge_sources_cell:
  "\<forall>src \<in> set srcs. supported src \<Longrightarrow> r < length (heap s) \<Longrightarrow>
   heap (snd (merge_sources w r srcs s)) ! r = pre_override w (heap s ! r) srcs"
  by (induction w r srcs s rule: merge_sources.induct)
     (auto simp: pre_override_def contributed_def supported_def split: option.splits)

lemma merge_sources_trace:
  "\<forall>src \<in> set srcs. supported src \<Longrightarrow>
   trace (snd (merge_sources w r srcs s)) = trace s @ concat (map source_events srcs)"
  by (induction w r srcs s rule: merge_sources.induct)
     (auto simp: source_events_def supported_def split: option.splits)

lemma distinct_pre_override:
  "distinct (map fst base) \<Longrightarrow> distinct (map fst (pre_override w base srcs))"
  unfolding pre_override_def
  by (induction srcs arbitrary: base) (simp_all add: distinct_dict_update)

lemma distinct_merged:
  "distinct (map fst base) \<Longrightarrow> distinct (map fst (merged w base srcs ov))"
  by (simp add: merged_def distinct_pre_override distinct_dict_update)

section \<open>Lemmas: the loop over the items\<close>

lemma apply_transformers_regs:
  "vheap (apply_transformers ts r items s) = vheap s \<and>
   theap (apply_transformers ts r items s) = theap s"
  by (induction ts r items s rule: apply_transformers.induct) (auto split: option.splits)

lemma apply_transformers_length:
  "length (heap (apply_transformers ts r items s)) = length (heap s)"
  by (induction ts r items s rule: apply_transformers.induct) (auto split: option.splits)

lemma apply_transformers_frame:
  "a \<noteq> r \<Longrightarrow> heap (apply_transformers ts r items s) ! a = heap s ! a"
  by (induction ts r items s rule: apply_transformers.induct) (auto split: option.splits)

lemma apply_transformers_trace:
  "trace (apply_transformers ts r items s) = trace s @ transformer_calls ts items"
  by (induction ts r items s rule: apply_transformers.induct)
     (auto simp: transformer_calls_def split: option.splits)

lemma apply_transformers_cell:
  "r < length (heap s) \<Longrightarrow> heap s ! r = pre @ items \<Longrightarrow> distinct (map fst (pre @ items)) \<Longrightarrow>
   heap (apply_transformers ts r items s) ! r = pre @ map (transform_item ts) items"
proof (induction items arbitrary: pre s)
  case Nil
  then show ?case by simp
next
  case (Cons item items)
  obtain k v where item: "item = (k, v)" by (cases item)
  have notin: "k \<notin> fst ` set pre" using Cons.prems(3) item by auto
  show ?case
  proof (cases "dict_get ts k")
    case None
    have "heap (apply_transformers ts r items s) ! r
            = (pre @ [item]) @ map (transform_item ts) items"
      using Cons.prems by (intro Cons.IH) simp_all
    then show ?thesis using None item by (simp add: transform_item_def transform_value_def)
  next
    case (Some f)
    let ?s' = "obj_set r k (f v) (log (CallTransformer k v) s)"
    have cell: "heap ?s' ! r = (pre @ [(k, f v)]) @ items"
      using Cons.prems(1,2) item notin by (simp add: dict_set_mid)
    have "heap (apply_transformers ts r items ?s') ! r
            = (pre @ [(k, f v)]) @ map (transform_item ts) items"
    proof (rule Cons.IH)
      show "r < length (heap ?s')" using Cons.prems(1) by simp
      show "heap ?s' ! r = (pre @ [(k, f v)]) @ items" by (rule cell)
      show "distinct (map fst ((pre @ [(k, f v)]) @ items))"
        using Cons.prems(3) item by simp
    qed
    then show ?thesis using Some item by (simp add: transform_item_def transform_value_def)
  qed
qed

section \<open>Lemmas: the loop over the validators\<close>

lemma validator_calls_Cons:
  "validator_calls d (item # items) =
     (case dict_get d (fst item) of Some v \<Rightarrow> [CallValidator (fst item) v] | None \<Rightarrow> [])
       @ validator_calls d items"
  by (simp add: validator_calls_def)

lemma validate_config_store:
  "heap (snd (validate_config vs c s)) = heap s \<and>
   vheap (snd (validate_config vs c s)) = vheap s \<and>
   theap (snd (validate_config vs c s)) = theap s"
  by (induction vs c s rule: validate_config.induct) (auto split: option.splits)

lemma validate_config_accept:
  "\<forall>item \<in> set vs. \<not> rejects (heap s ! c) item \<Longrightarrow>
   fst (validate_config vs c s) = None \<and>
   trace (snd (validate_config vs c s)) = trace s @ validator_calls (heap s ! c) vs"
proof (induction vs arbitrary: s)
  case Nil
  then show ?case by (simp add: validator_calls_def)
next
  case (Cons item vs)
  show ?case
  proof (cases "dict_get (heap s ! c) (fst item)")
    case None
    then show ?thesis using Cons by (simp add: validator_calls_Cons)
  next
    case (Some v)
    then have ok: "snd item v" using Cons.prems by (simp add: rejects_def)
    let ?s' = "log (CallValidator (fst item) v) s"
    have "fst (validate_config vs c ?s') = None \<and>
          trace (snd (validate_config vs c ?s')) = trace ?s' @ validator_calls (heap ?s' ! c) vs"
      using Cons.prems by (intro Cons.IH) simp
    then show ?thesis using Some ok by (simp add: validator_calls_Cons)
  qed
qed

lemma validate_config_reject:
  "\<forall>item \<in> set pre. \<not> rejects (heap s ! c) item \<Longrightarrow>
   dict_get (heap s ! c) k = Some v \<Longrightarrow> \<not> f v \<Longrightarrow>
   fst (validate_config (pre @ (k, f) # post) c s) = Some (validation_error k v) \<and>
   trace (snd (validate_config (pre @ (k, f) # post) c s))
     = trace s @ validator_calls (heap s ! c) pre @ [CallValidator k v]"
proof (induction pre arbitrary: s)
  case Nil
  then show ?case by (simp add: validator_calls_def)
next
  case (Cons item pre)
  show ?case
  proof (cases "dict_get (heap s ! c) (fst item)")
    case None
    then show ?thesis using Cons by (simp add: validator_calls_Cons)
  next
    case (Some u)
    then have ok: "snd item u" using Cons.prems by (simp add: rejects_def)
    let ?s' = "log (CallValidator (fst item) u) s"
    have "fst (validate_config (pre @ (k, f) # post) c ?s') = Some (validation_error k v) \<and>
          trace (snd (validate_config (pre @ (k, f) # post) c ?s'))
            = trace ?s' @ validator_calls (heap ?s' ! c) pre @ [CallValidator k v]"
      using Cons.prems by (intro Cons.IH) simp_all
    then show ?thesis using Some ok by (simp add: validator_calls_Cons)
  qed
qed

section \<open>Lemmas: parse\<close>

lemma parse_regs:
  "vheap (snd (parse w self sources overrides s)) = vheap s \<and>
   theap (snd (parse w self sources overrides s)) = theap s"
proof -
  let ?r = "length (heap s)"
  let ?s1 = "s\<lparr>heap := heap s @ [heap s ! config self]\<rparr>"
  obtain e s2 where ms: "merge_sources w ?r sources ?s1 = (e, s2)"
    by (cases "merge_sources w ?r sources ?s1")
  have r2: "vheap s2 = vheap s \<and> theap s2 = theap s"
    using merge_sources_regs [of w ?r sources ?s1] ms by simp
  show ?thesis
  proof (cases e)
    case (Some x)
    then show ?thesis using ms r2 by (simp add: parse_def alloc_def)
  next
    case None
    let ?s3 = "obj_update ?r overrides s2"
    let ?s4 = "apply_transformers (theap ?s3 ! transformers self) ?r (heap ?s3 ! ?r) ?s3"
    let ?v = "validate_config (vheap ?s4 ! validators self) ?r ?s4"
    have "vheap (snd ?v) = vheap s \<and> theap (snd ?v) = theap s"
      using r2 by (simp add: validate_config_store apply_transformers_regs)
    moreover have "snd (parse w self sources overrides s) = snd ?v"
      using ms None by (simp add: parse_def alloc_def Let_def split: prod.splits option.splits)
    ultimately show ?thesis by simp
  qed
qed

lemma parse_heap_length:
  "length (heap (snd (parse w self sources overrides s))) = Suc (length (heap s))"
proof -
  let ?r = "length (heap s)"
  let ?s1 = "s\<lparr>heap := heap s @ [heap s ! config self]\<rparr>"
  obtain e s2 where ms: "merge_sources w ?r sources ?s1 = (e, s2)"
    by (cases "merge_sources w ?r sources ?s1")
  have l2: "length (heap s2) = Suc ?r"
    using merge_sources_length [of w ?r sources ?s1] ms by simp
  show ?thesis
  proof (cases e)
    case (Some x)
    then show ?thesis using ms l2 by (simp add: parse_def alloc_def)
  next
    case None
    let ?s3 = "obj_update ?r overrides s2"
    let ?s4 = "apply_transformers (theap ?s3 ! transformers self) ?r (heap ?s3 ! ?r) ?s3"
    let ?v = "validate_config (vheap ?s4 ! validators self) ?r ?s4"
    have "length (heap (snd ?v)) = Suc ?r"
      using l2 by (simp add: validate_config_store apply_transformers_length)
    moreover have "snd (parse w self sources overrides s) = snd ?v"
      using ms None by (simp add: parse_def alloc_def Let_def split: prod.splits option.splits)
    ultimately show ?thesis by simp
  qed
qed

lemma parse_heap_frame:
  assumes "a < length (heap s)"
  shows "heap (snd (parse w self sources overrides s)) ! a = heap s ! a"
proof -
  let ?r = "length (heap s)"
  let ?s1 = "s\<lparr>heap := heap s @ [heap s ! config self]\<rparr>"
  have ne: "a \<noteq> ?r" using assms by simp
  obtain e s2 where ms: "merge_sources w ?r sources ?s1 = (e, s2)"
    by (cases "merge_sources w ?r sources ?s1")
  have f2: "heap s2 ! a = heap s ! a"
    using merge_sources_frame [OF ne, of w sources ?s1] ms assms by (simp add: nth_append)
  show ?thesis
  proof (cases e)
    case (Some x)
    then show ?thesis using ms f2 by (simp add: parse_def alloc_def)
  next
    case None
    let ?s3 = "obj_update ?r overrides s2"
    let ?s4 = "apply_transformers (theap ?s3 ! transformers self) ?r (heap ?s3 ! ?r) ?s3"
    let ?v = "validate_config (vheap ?s4 ! validators self) ?r ?s4"
    have "heap (snd ?v) ! a = heap s ! a"
      using f2 ne by (simp add: validate_config_store apply_transformers_frame)
    moreover have "snd (parse w self sources overrides s) = snd ?v"
      using ms None by (simp add: parse_def alloc_def Let_def split: prod.splits option.splits)
    ultimately show ?thesis by simp
  qed
qed

lemma parse_Inr_supported:
  assumes "fst (parse w self sources overrides s) = Inr r"
  shows "(\<forall>src \<in> set sources. supported src) \<and> r = length (heap s)"
proof -
  let ?r = "length (heap s)"
  let ?s1 = "s\<lparr>heap := heap s @ [heap s ! config self]\<rparr>"
  obtain e s2 where ms: "merge_sources w ?r sources ?s1 = (e, s2)"
    by (cases "merge_sources w ?r sources ?s1")
  have "e = None" and "r = ?r"
    using assms ms by (auto simp: parse_def alloc_def Let_def split: prod.splits option.splits)
  then show ?thesis using merge_sources_None_iff [of w ?r sources ?s1] ms by simp
qed

lemma parse_supported:
  assumes sup: "\<forall>src \<in> set sources. supported src"
      and wf: "distinct (map fst (heap s ! config self))"
  shows "\<exists>s4. heap s4 = heap s @ [map (transform_item (theap s ! transformers self))
                                     (merged w (heap s ! config self) sources overrides)]
            \<and> vheap s4 = vheap s
            \<and> trace s4 = trace s @ concat (map source_events sources)
                   @ transformer_calls (theap s ! transformers self)
                       (merged w (heap s ! config self) sources overrides)
            \<and> parse w self sources overrides s =
                (case validate_config (vheap s ! validators self) (length (heap s)) s4 of
                   (Some e, s5) \<Rightarrow> (Inl e, s5)
                 | (None, s5) \<Rightarrow> (Inr (length (heap s)), s5))"
proof -
  let ?r = "length (heap s)"
  let ?B = "heap s ! config self"
  let ?ts = "theap s ! transformers self"
  let ?M = "merged w ?B sources overrides"
  let ?s1 = "s\<lparr>heap := heap s @ [?B]\<rparr>"
  obtain e s2 where ms: "merge_sources w ?r sources ?s1 = (e, s2)"
    by (cases "merge_sources w ?r sources ?s1")
  have e: "e = None"
    using merge_sources_None_iff [of w ?r sources ?s1] sup ms by simp
  have regs2: "vheap s2 = vheap s \<and> theap s2 = theap s"
    using merge_sources_regs [of w ?r sources ?s1] ms by simp
  have len2: "length (heap s2) = Suc ?r"
    using merge_sources_length [of w ?r sources ?s1] ms by simp
  have cell2: "heap s2 ! ?r = pre_override w ?B sources"
    using merge_sources_cell [of sources ?r ?s1 w] sup ms by simp
  have frame2: "\<And>a. a < ?r \<Longrightarrow> heap s2 ! a = heap s ! a"
    using merge_sources_frame [of _ ?r w sources ?s1] ms by (simp add: nth_append)
  have trace2: "trace s2 = trace s @ concat (map source_events sources)"
    using merge_sources_trace [of sources w ?r ?s1] sup ms by simp
  let ?s3 = "obj_update ?r overrides s2"
  have cell3: "heap ?s3 ! ?r = ?M"
    using len2 cell2 by (simp add: merged_def)
  let ?s4 = "apply_transformers ?ts ?r ?M ?s3"
  have len4: "length (heap ?s4) = Suc ?r"
    using len2 by (simp add: apply_transformers_length)
  have frame4: "\<And>a. a < ?r \<Longrightarrow> heap ?s4 ! a = heap s ! a"
    using frame2 by (simp add: apply_transformers_frame)
  have "heap ?s4 ! ?r = [] @ map (transform_item ?ts) ?M"
  proof (rule apply_transformers_cell)
    show "?r < length (heap ?s3)" using len2 by simp
    show "heap ?s3 ! ?r = [] @ ?M" using cell3 by simp
    show "distinct (map fst ([] @ ?M))" using wf by (simp add: distinct_merged)
  qed
  then have heap4: "heap ?s4 = heap s @ [map (transform_item ?ts) ?M]"
    using heap_eq_snoc [of "heap ?s4" "heap s"] len4 frame4 by simp
  have regs4: "vheap ?s4 = vheap s"
    using regs2 by (simp add: apply_transformers_regs)
  have trace4: "trace ?s4 = trace s @ concat (map source_events sources)
                   @ transformer_calls ?ts ?M"
    unfolding apply_transformers_trace using trace2 by simp
  have "parse w self sources overrides s =
          (case validate_config (vheap s ! validators self) ?r ?s4 of
             (Some e, s5) \<Rightarrow> (Inl e, s5)
           | (None, s5) \<Rightarrow> (Inr ?r, s5))"
    using ms e regs2 regs4 cell3 by (simp add: parse_def alloc_def Let_def)
  then show ?thesis using heap4 trace4 regs4 by blast
qed


section \<open>Lemmas: two runs of parse\<close>

lemma parse_unfold:
  "parse w self sources overrides s =
     (case merge_sources w (length (heap s)) sources
             (s\<lparr>heap := heap s @ [heap s ! config self]\<rparr>) of
        (Some e, s2) \<Rightarrow> (Inl e, s2)
      | (None, s2) \<Rightarrow> finish_parse self (length (heap s)) overrides s2)"
  by (cases "merge_sources w (length (heap s)) sources
               (s\<lparr>heap := heap s @ [heap s ! config self]\<rparr>)")
     (simp add: parse_def alloc_def finish_parse_def split: option.splits)


lemma merge_sources_sim:
  "r < length (heap s) \<Longrightarrow> r' < length (heap s') \<Longrightarrow> heap s ! r = heap s' ! r' \<Longrightarrow>
   fst (merge_sources w r srcs s) = fst (merge_sources w r' srcs s') \<and>
   heap (snd (merge_sources w r srcs s)) ! r = heap (snd (merge_sources w r' srcs s')) ! r'"
proof (induction srcs arbitrary: s s')
  case Nil
  then show ?case by simp
next
  case (Cons src srcs)
  have step: "\<And>d t t'. heap t = heap s \<Longrightarrow> heap t' = heap s' \<Longrightarrow>
      fst (merge_sources w r srcs (obj_update r d t))
        = fst (merge_sources w r' srcs (obj_update r' d t')) \<and>
      heap (snd (merge_sources w r srcs (obj_update r d t))) ! r
        = heap (snd (merge_sources w r' srcs (obj_update r' d t'))) ! r'"
    using Cons.prems by (intro Cons.IH) simp_all
  show ?case
  proof (cases "dict_items src")
    case (Some d)
    then show ?thesis using step [of s s' d] by simp
  next
    case None
    note di = this
    show ?thesis
    proof (cases "str_value src")
      case (Some p)
      then show ?thesis
        using di step [of "log (OpenFile p) s" "log (OpenFile p) s'" "load_from_file w p"]
        by simp
    next
      case None
      note sv = this
      show ?thesis
      proof (cases "to_dict src")
        case (Some d)
        then show ?thesis
          using di sv step [of "log (CallToDict src) s" "log (CallToDict src) s'" d] by simp
      next
        case None
        then show ?thesis using di sv Cons.prems by simp
      qed
    qed
  qed
qed

lemma apply_transformers_sim:
  "r < length (heap s) \<Longrightarrow> r' < length (heap s') \<Longrightarrow> heap s ! r = heap s' ! r' \<Longrightarrow>
   heap (apply_transformers ts r items s) ! r = heap (apply_transformers ts r' items s') ! r'"
proof (induction items arbitrary: s s')
  case Nil
  then show ?case by simp
next
  case (Cons item items)
  show ?case
  proof (cases "dict_get ts (fst item)")
    case None
    then show ?thesis using Cons by simp
  next
    case (Some f)
    let ?e = "CallTransformer (fst item) (snd item)"
    have "heap (apply_transformers ts r items (obj_set r (fst item) (f (snd item)) (log ?e s))) ! r
        = heap (apply_transformers ts r' items (obj_set r' (fst item) (f (snd item)) (log ?e s'))) ! r'"
      using Cons.prems by (intro Cons.IH) simp_all
    then show ?thesis using Some by simp
  qed
qed

lemma validate_config_sim:
  "heap s ! c = heap s' ! c' \<Longrightarrow>
   fst (validate_config vs c s) = fst (validate_config vs c' s')"
proof (induction vs arbitrary: s s')
  case Nil
  then show ?case by simp
next
  case (Cons item vs)
  show ?case
  proof (cases "dict_get (heap s ! c) (fst item)")
    case None
    then show ?thesis using Cons by simp
  next
    case (Some v)
    let ?e = "CallValidator (fst item) v"
    have "fst (validate_config vs c (log ?e s)) = fst (validate_config vs c' (log ?e s'))"
      using Cons.prems by (intro Cons.IH) simp
    then show ?thesis using Some Cons.prems by simp
  qed
qed

lemma finish_parse_returned:
  assumes "r < length (heap s)"
  shows "returned (finish_parse self r overrides s) =
           (case fst (validate_config (vheap s ! validators self) r
                        (apply_transformers (theap s ! transformers self) r
                           (dict_update (heap s ! r) overrides) (obj_update r overrides s))) of
              Some e \<Rightarrow> Inl e
            | None \<Rightarrow>
                Inr (heap (apply_transformers (theap s ! transformers self) r
                             (dict_update (heap s ! r) overrides)
                             (obj_update r overrides s)) ! r))"
proof -
  let ?s4 = "apply_transformers (theap s ! transformers self) r
               (dict_update (heap s ! r) overrides) (obj_update r overrides s)"
  let ?v = "validate_config (vheap s ! validators self) r ?s4"
  have "heap (snd ?v) = heap ?s4" by (simp add: validate_config_store)
  then show ?thesis using assms
    by (cases ?v) (auto simp: finish_parse_def returned_def Let_def apply_transformers_regs
                        split: option.splits)
qed

lemma finish_parse_sim:
  assumes "r < length (heap s)" and "r' < length (heap s')"
      and "heap s ! r = heap s' ! r'"
      and "vheap s ! validators self = vheap s' ! validators self"
      and "theap s ! transformers self = theap s' ! transformers self"
  shows "returned (finish_parse self r overrides s) = returned (finish_parse self r' overrides s')"
proof -
  let ?ts = "theap s' ! transformers self"
  let ?vs = "vheap s' ! validators self"
  let ?M = "dict_update (heap s' ! r') overrides"
  let ?s4 = "apply_transformers ?ts r ?M (obj_update r overrides s)"
  let ?t4 = "apply_transformers ?ts r' ?M (obj_update r' overrides s')"
  have c4: "heap ?s4 ! r = heap ?t4 ! r'"
    using assms(1,2,3) by (intro apply_transformers_sim) simp_all
  have v: "fst (validate_config ?vs r ?s4) = fst (validate_config ?vs r' ?t4)"
    using c4 by (rule validate_config_sim)
  have "returned (finish_parse self r overrides s) =
          (case fst (validate_config ?vs r ?s4) of Some e \<Rightarrow> Inl e | None \<Rightarrow> Inr (heap ?s4 ! r))"
    unfolding finish_parse_returned [OF assms(1)] assms(3,4,5) by (rule refl)
  also have "\<dots> = (case fst (validate_config ?vs r' ?t4) of
                      Some e \<Rightarrow> Inl e | None \<Rightarrow> Inr (heap ?t4 ! r'))"
    unfolding v c4 by (rule refl)
  also have "\<dots> = returned (finish_parse self r' overrides s')"
    unfolding finish_parse_returned [OF assms(2)] by (rule refl)
  finally show ?thesis .
qed

lemma parse_sim:
  assumes "heap s ! config self = heap s' ! config self"
      and "vheap s ! validators self = vheap s' ! validators self"
      and "theap s ! transformers self = theap s' ! transformers self"
  shows "returned (parse w self sources overrides s) = returned (parse w self sources overrides s')"
proof -
  let ?r = "length (heap s)" and ?r' = "length (heap s')"
  let ?s1 = "s\<lparr>heap := heap s @ [heap s ! config self]\<rparr>"
  let ?t1 = "s'\<lparr>heap := heap s' @ [heap s' ! config self]\<rparr>"
  obtain e s2 where ms: "merge_sources w ?r sources ?s1 = (e, s2)"
    by (cases "merge_sources w ?r sources ?s1")
  obtain e' t2 where mt: "merge_sources w ?r' sources ?t1 = (e', t2)"
    by (cases "merge_sources w ?r' sources ?t1")
  have sim: "e = e' \<and> heap s2 ! ?r = heap t2 ! ?r'"
    using merge_sources_sim [of ?r ?s1 ?r' ?t1 w sources] ms mt assms(1) by simp
  have ls: "?r < length (heap s2)" "?r' < length (heap t2)"
    using merge_sources_length [of w ?r sources ?s1] merge_sources_length [of w ?r' sources ?t1]
          ms mt by simp_all
  have regs: "vheap s2 = vheap s" "theap s2 = theap s" "vheap t2 = vheap s'" "theap t2 = theap s'"
    using merge_sources_regs [of w ?r sources ?s1] merge_sources_regs [of w ?r' sources ?t1]
          ms mt by simp_all
  show ?thesis
  proof (cases e)
    case (Some x)
    then show ?thesis using sim ms mt by (simp add: parse_unfold returned_def)
  next
    case None
    have "returned (finish_parse self ?r overrides s2) = returned (finish_parse self ?r' overrides t2)"
      using ls sim regs assms(2,3) by (intro finish_parse_sim) simp_all
    then show ?thesis using None sim ms mt by (simp add: parse_unfold)
  qed
qed

section \<open>Lemmas: what parse returns\<close>

lemma parse_outcome:
  assumes sup: "\<forall>src \<in> set sources. supported src"
      and wf: "distinct (map fst (heap s ! config self))"
  shows "\<exists>s4. heap s4 ! length (heap s)
               = map (transform_item (theap s ! transformers self))
                   (merged w (heap s ! config self) sources overrides)
            \<and> trace s4 = trace s @ concat (map source_events sources)
                   @ transformer_calls (theap s ! transformers self)
                       (merged w (heap s ! config self) sources overrides)
            \<and> returned (parse w self sources overrides s) =
                (case fst (validate_config (vheap s ! validators self) (length (heap s)) s4) of
                   Some e \<Rightarrow> Inl e
                 | None \<Rightarrow> Inr (heap s4 ! length (heap s)))
            \<and> trace (snd (parse w self sources overrides s)) =
                trace (snd (validate_config (vheap s ! validators self) (length (heap s)) s4))"
proof -
  let ?r = "length (heap s)"
  obtain s4 where s4:
    "heap s4 = heap s @ [map (transform_item (theap s ! transformers self))
                           (merged w (heap s ! config self) sources overrides)]"
    "trace s4 = trace s @ concat (map source_events sources)
                   @ transformer_calls (theap s ! transformers self)
                       (merged w (heap s ! config self) sources overrides)"
    "parse w self sources overrides s =
       (case validate_config (vheap s ! validators self) ?r s4 of
          (Some e, s5) \<Rightarrow> (Inl e, s5)
        | (None, s5) \<Rightarrow> (Inr ?r, s5))"
    using parse_supported [OF sup wf, of w overrides] by blast
  let ?v = "validate_config (vheap s ! validators self) ?r s4"
  have hv: "heap (snd ?v) = heap s4" by (simp add: validate_config_store)
  have "returned (parse w self sources overrides s) =
          (case fst ?v of Some e \<Rightarrow> Inl e | None \<Rightarrow> Inr (heap s4 ! ?r))"
    using s4(3) hv by (cases ?v) (auto simp: returned_def split: option.splits)
  moreover have "trace (snd (parse w self sources overrides s)) = trace (snd ?v)"
    using s4(3) by (cases ?v) (auto split: option.splits)
  moreover have "heap s4 ! ?r = map (transform_item (theap s ! transformers self))
                   (merged w (heap s ! config self) sources overrides)"
    using s4(1) by simp
  ultimately show ?thesis using s4(2) by blast
qed

lemma parse_returns_mapping:
  assumes ret: "returned (parse w self sources overrides s) = Inr d"
      and wf: "distinct (map fst (heap s ! config self))"
  shows "d = map (transform_item (theap s ! transformers self))
               (merged w (heap s ! config self) sources overrides)"
proof -
  obtain r where "fst (parse w self sources overrides s) = Inr r"
    using ret by (auto simp: returned_def split: sum.splits)
  then have sup: "\<forall>src \<in> set sources. supported src"
    using parse_Inr_supported by blast
  show ?thesis
    using parse_outcome [OF sup wf, of w overrides] ret by (auto split: option.splits)
qed

section \<open>Lemmas: files that fail, and folds of updates\<close>



section \<open>Lemmas: the exceptions and the calls of parse\<close>








section \<open>Lemmas: stripping characters\<close>



section \<open>Claims\<close>



text \<open>
  C6. A call of \<open>parse\<close>, whether it returns or raises, leaves every dict that existed
  before the call as it was, and both registries too. So the base mapping of the instance
  is unchanged, and a second call returns what it would have returned without the first.
\<close>

theorem parse_leaves_instance_unchanged:
  "take (length (heap s)) (heap (snd (parse w self sources overrides s))) = heap s \<and>
   vheap (snd (parse w self sources overrides s)) = vheap s \<and>
   theap (snd (parse w self sources overrides s)) = theap s \<and>
   (config self < length (heap s) \<longrightarrow>
      heap (snd (parse w self sources overrides s)) ! config self = heap s ! config self \<and>
      returned (parse w self sources2 overrides2 (snd (parse w self sources overrides s)))
        = returned (parse w self sources2 overrides2 s))"
proof -
  let ?s' = "snd (parse w self sources overrides s)"
  have "heap ?s' = heap s @ [heap ?s' ! length (heap s)]"
    by (rule heap_eq_snoc) (simp_all add: parse_heap_length parse_heap_frame)
  then have "take (length (heap s)) (heap ?s')
               = take (length (heap s)) (heap s @ [heap ?s' ! length (heap s)])"
    by simp
  then have prefix: "take (length (heap s)) (heap ?s') = heap s" by simp
  have regs: "vheap ?s' = vheap s" "theap ?s' = theap s"
    using parse_regs [of w self sources overrides s] by simp_all
  have second: "returned (parse w self sources2 overrides2 ?s')
                  = returned (parse w self sources2 overrides2 s)"
    if live: "config self < length (heap s)"
  proof (rule parse_sim)
    show "heap ?s' ! config self = heap s ! config self"
      using live by (rule parse_heap_frame)
    show "vheap ?s' ! validators self = vheap s ! validators self" by (simp add: regs)
    show "theap ?s' ! transformers self = theap s ! transformers self" by (simp add: regs)
  qed
  show ?thesis using prefix regs second parse_heap_frame [of "config self" s] by blast
qed

theorem parse_leaves_instance_unchanged_witness:
  "config demo_parser < length (heap demo_state) \<and>
   heap (snd (parse demo_world demo_parser [] [(''port'', VInt 70000)] demo_state))
     ! config demo_parser = demo_defaults \<and>
   returned (parse demo_world demo_parser
               [dict_source [(''debug'', VBool True), (''port'', VInt 3000)]] []
               (snd (parse demo_world demo_parser [] [(''port'', VInt 70000)] demo_state)))
     = Inr [(''debug'', VBool True), (''port'', VInt 3000), (''host'', VStr ''localhost''),
            (''max_connections'', VInt 100)]"
proof -
  have live: "config demo_parser < length (heap demo_state)" by code_simp
  have base: "heap demo_state ! config demo_parser = demo_defaults" by code_simp
  have direct: "returned (parse demo_world demo_parser
                   [dict_source [(''debug'', VBool True), (''port'', VInt 3000)]] [] demo_state)
     = Inr [(''debug'', VBool True), (''port'', VInt 3000), (''host'', VStr ''localhost''),
            (''max_connections'', VInt 100)]"
    by code_simp
  show ?thesis
    using parse_leaves_instance_unchanged
            [of demo_state demo_world demo_parser "[]" "[(''port'', VInt 70000)]"
                "[dict_source [(''debug'', VBool True), (''port'', VInt 3000)]]" "[]"]
          live base direct
    by simp
qed

text \<open>
  C1, as amended. Whenever \<open>parse\<close> returns a mapping, a key of the overrides is bound in it
  to the value the overrides give it, passed through the transformer registered for the key
  when there is one; the base and the sources have no part in it.
\<close>

theorem overrides_dominate_up_to_transformer:
  assumes "returned (parse w self sources overrides s) = Inr d"
      and "distinct (map fst (heap s ! config self))"
      and "distinct (map fst overrides)"
      and "dict_get overrides k = Some v"
  shows "dict_get d k =
           Some (case dict_get (theap s ! transformers self) k of Some f \<Rightarrow> f v | None \<Rightarrow> v)"
proof -
  let ?M = "merged w (heap s ! config self) sources overrides"
  have d: "d = map (transform_item (theap s ! transformers self)) ?M"
    using assms(1,2) by (rule parse_returns_mapping)
  have "dict_get ?M k = Some v"
    unfolding merged_def using assms(3,4) by (rule dict_get_update_in)
  then show ?thesis
    unfolding d by (simp add: dict_get_transform transform_value_def)
qed

theorem overrides_dominate_up_to_transformer_witness:
  "returned (parse demo_world demo_parser [dict_source [(''port'', VInt 3000)]]
               [(''port'', VInt 5000), (''debug'', VBool True)] demo_state)
     = Inr [(''debug'', VBool True), (''port'', VInt 5000), (''host'', VStr ''localhost''),
            (''max_connections'', VInt 100)] \<and>
   distinct (map fst (heap demo_state ! config demo_parser)) \<and>
   distinct (map fst [(''port'', VInt 5000), (''debug'', VBool True)]) \<and>
   dict_get [(''port'', VInt 5000), (''debug'', VBool True)] ''port'' = Some (VInt 5000) \<and>
   dict_get [(''debug'', VBool True), (''port'', VInt 5000), (''host'', VStr ''localhost''),
             (''max_connections'', VInt 100)] ''port'' = Some (VInt 5000)"
proof -
  have h1: "returned (parse demo_world demo_parser [dict_source [(''port'', VInt 3000)]]
               [(''port'', VInt 5000), (''debug'', VBool True)] demo_state)
     = Inr [(''debug'', VBool True), (''port'', VInt 5000), (''host'', VStr ''localhost''),
            (''max_connections'', VInt 100)]"
    by code_simp
  have h2: "distinct (map fst (heap demo_state ! config demo_parser))" by code_simp
  have h3: "distinct (map fst [(''port'', VInt 5000), (''debug'', VBool True)])" by simp
  have h4: "dict_get [(''port'', VInt 5000), (''debug'', VBool True)] ''port'' = Some (VInt 5000)"
    by (simp add: dict_get_def)
  have none: "dict_get (theap demo_state ! transformers demo_parser) ''port'' = None"
    by code_simp
  show ?thesis
    using overrides_dominate_up_to_transformer [OF h1 h2 h3 h4] h1 h2 h3 h4 none by simp
qed

text \<open>
  C1 as the specification states it fails: with the transformer of the example registered
  for \<open>host\<close>, the override \<open>Example.ORG\<close> comes back as \<open>example.org\<close>.
\<close>

theorem overrides_dominate_counterexample:
  "dict_get [(''host'', VStr ''Example.ORG'')] ''host'' = Some (VStr ''Example.ORG'') \<and>
   returned (parse demo_world demo_parser [dict_source [(''host'', VStr ''a.example'')]]
               [(''host'', VStr ''Example.ORG'')] demo_state)
     = Inr [(''debug'', VBool False), (''port'', VInt 8000), (''host'', VStr ''example.org''),
            (''max_connections'', VInt 100)] \<and>
   dict_get [(''debug'', VBool False), (''port'', VInt 8000), (''host'', VStr ''example.org''),
             (''max_connections'', VInt 100)] ''host'' = Some (VStr ''example.org'')"
  by code_simp

text \<open>
  C7. Whenever \<open>parse\<close> returns a mapping, it has the keys of the merged mapping (the base,
  then the sources, then the overrides), in the same order; a key with a registered
  transformer is bound to the transformer applied to its merged value, and any other key
  keeps its merged value.
\<close>

theorem transformers_applied_to_merged:
  assumes "returned (parse w self sources overrides s) = Inr d"
      and "distinct (map fst (heap s ! config self))"
  shows "map fst d = map fst (merged w (heap s ! config self) sources overrides) \<and>
         (\<forall>k v. dict_get (merged w (heap s ! config self) sources overrides) k = Some v \<longrightarrow>
            dict_get d k =
              Some (case dict_get (theap s ! transformers self) k of
                      Some f \<Rightarrow> f v | None \<Rightarrow> v))"
proof -
  let ?M = "merged w (heap s ! config self) sources overrides"
  have d: "d = map (transform_item (theap s ! transformers self)) ?M"
    using assms by (rule parse_returns_mapping)
  have "map fst d = map fst ?M"
    unfolding d by (simp add: fst_transform_item comp_def)
  moreover have "\<forall>k v. dict_get ?M k = Some v \<longrightarrow>
      dict_get d k = Some (case dict_get (theap s ! transformers self) k of
                             Some f \<Rightarrow> f v | None \<Rightarrow> v)"
    unfolding d by (simp add: dict_get_transform transform_value_def)
  ultimately show ?thesis by blast
qed

theorem transformers_applied_to_merged_witness:
  "returned (parse demo_world demo_parser [] [(''host'', VStr '' EXAMPLE.com '')] demo_state)
     = Inr [(''debug'', VBool False), (''port'', VInt 8000), (''host'', VStr ''example.com''),
            (''max_connections'', VInt 100)] \<and>
   distinct (map fst (heap demo_state ! config demo_parser)) \<and>
   dict_get (merged demo_world (heap demo_state ! config demo_parser) []
               [(''host'', VStr '' EXAMPLE.com '')]) ''host'' = Some (VStr '' EXAMPLE.com '') \<and>
   dict_get [(''debug'', VBool False), (''port'', VInt 8000), (''host'', VStr ''example.com''),
             (''max_connections'', VInt 100)] ''host'' = Some (VStr ''example.com'')"
proof -
  have h1: "returned (parse demo_world demo_parser [] [(''host'', VStr '' EXAMPLE.com '')] demo_state)
     = Inr [(''debug'', VBool False), (''port'', VInt 8000), (''host'', VStr ''example.com''),
            (''max_connections'', VInt 100)]"
    by code_simp
  have h2: "distinct (map fst (heap demo_state ! config demo_parser))" by code_simp
  have m: "dict_get (merged demo_world (heap demo_state ! config demo_parser) []
               [(''host'', VStr '' EXAMPLE.com '')]) ''host'' = Some (VStr '' EXAMPLE.com '')"
    by code_simp
  have t: "dict_get (theap demo_state ! transformers demo_parser) ''host'' = Some host_transformer"
    by (simp add: demo_state_def demo_parser_def init_def empty_state_def add_transformer_def
                  add_validator_def dict_get_def)
  have v: "host_transformer (VStr '' EXAMPLE.com '') = VStr ''example.com''"
    by code_simp
  show ?thesis
    using transformers_applied_to_merged [OF h1 h2] h1 h2 m t v by simp
qed

text \<open>
  C2. Let \<open>T\<close> be the merged and transformed mapping. \<open>parse\<close> raises the validation error
  exactly when some entry of the validator registry rejects \<open>T\<close>; otherwise it returns
  \<open>T\<close>. The error carries the key and the value of the first rejecting entry, in the order
  of the registry, and the validators called are those before that entry and that entry:
  none after it.
\<close>

theorem validation_fails_iff_rejected:
  assumes sup: "\<forall>src \<in> set sources. supported src"
      and wf: "distinct (map fst (heap s ! config self))"
      and T: "T = map (transform_item (theap s ! transformers self))
                    (merged w (heap s ! config self) sources overrides)"
      and vs: "vs = vheap s ! validators self"
  shows "((\<exists>k v. returned (parse w self sources overrides s) = Inl (validation_error k v))
            \<longleftrightarrow> (\<exists>item \<in> set vs. rejects T item)) \<and>
         ((\<forall>item \<in> set vs. \<not> rejects T item) \<longrightarrow>
            returned (parse w self sources overrides s) = Inr T) \<and>
         (\<forall>pre k f post v.
            vs = pre @ (k, f) # post \<and> (\<forall>x \<in> set pre. \<not> rejects T x) \<and>
            dict_get T k = Some v \<and> \<not> f v \<longrightarrow>
              returned (parse w self sources overrides s) = Inl (validation_error k v) \<and>
              new_events s (snd (parse w self sources overrides s)) =
                concat (map source_events sources)
                  @ transformer_calls (theap s ! transformers self)
                      (merged w (heap s ! config self) sources overrides)
                  @ validator_calls T pre @ [CallValidator k v])"
proof -
  let ?r = "length (heap s)"
  let ?p = "parse w self sources overrides s"
  let ?pre_ev = "concat (map source_events sources)
                  @ transformer_calls (theap s ! transformers self)
                      (merged w (heap s ! config self) sources overrides)"
  obtain s4 where s4:
    "heap s4 ! ?r = T" "trace s4 = trace s @ ?pre_ev"
    "returned ?p = (case fst (validate_config vs ?r s4) of
                      Some e \<Rightarrow> Inl e | None \<Rightarrow> Inr (heap s4 ! ?r))"
    "trace (snd ?p) = trace (snd (validate_config vs ?r s4))"
    using parse_outcome [OF sup wf, of w overrides] unfolding T vs by blast
  have accept: "returned ?p = Inr T" if "\<forall>item \<in> set vs. \<not> rejects T item"
    using validate_config_accept [of vs s4 ?r] that s4(1,3) by simp
  have reject: "returned ?p = Inl (validation_error k v) \<and>
                new_events s (snd ?p) = ?pre_ev @ validator_calls T pre @ [CallValidator k v]"
    if "vs = pre @ (k, f) # post" "\<forall>x \<in> set pre. \<not> rejects T x"
       "dict_get T k = Some v" "\<not> f v" for pre k f post v
    using validate_config_reject [of pre s4 ?r k v f post] that s4
    by (simp add: new_events_def)
  have iff: "(\<exists>k v. returned ?p = Inl (validation_error k v)) \<longleftrightarrow> (\<exists>item \<in> set vs. rejects T item)"
  proof
    assume "\<exists>k v. returned ?p = Inl (validation_error k v)"
    then show "\<exists>item \<in> set vs. rejects T item" using accept by fastforce
  next
    assume "\<exists>item \<in> set vs. rejects T item"
    then obtain pre item post where
      dec: "vs = pre @ item # post" "rejects T item" "\<forall>x \<in> set pre. \<not> rejects T x"
      using split_list_first_prop [of vs "rejects T"] by blast
    obtain k f where item: "item = (k, f)" by (cases item)
    obtain v where v: "dict_get T k = Some v" "\<not> f v"
      using dec(2) item by (auto simp: rejects_def split: option.splits)
    show "\<exists>k v. returned ?p = Inl (validation_error k v)"
      using reject [of pre k f post v] dec(1,3) item v by blast
  qed
  have acc: "(\<forall>item \<in> set vs. \<not> rejects T item) \<longrightarrow> returned ?p = Inr T"
    using accept by simp
  have rej: "\<forall>pre k f post v.
      vs = pre @ (k, f) # post \<and> (\<forall>x \<in> set pre. \<not> rejects T x) \<and>
      dict_get T k = Some v \<and> \<not> f v \<longrightarrow>
        returned ?p = Inl (validation_error k v) \<and>
        new_events s (snd ?p) = ?pre_ev @ validator_calls T pre @ [CallValidator k v]"
    using reject by blast
  show ?thesis using iff acc rej by simp
qed

theorem validation_fails_iff_rejected_witness:
  "supported (dict_source [(''debug'', VBool True)]) \<and>
   distinct (map fst (heap demo_state ! config demo_parser)) \<and>
   \<not> port_validator (VInt 70000) \<and>
   returned (parse demo_world demo_parser [dict_source [(''debug'', VBool True)]]
               [(''port'', VInt 70000), (''max_connections'', VInt 0)] demo_state)
     = Inl (validation_error ''port'' (VInt 70000)) \<and>
   new_events demo_state
     (snd (parse demo_world demo_parser [dict_source [(''debug'', VBool True)]]
             [(''port'', VInt 70000), (''max_connections'', VInt 0)] demo_state))
     = [CallTransformer ''host'' (VStr ''localhost''), CallValidator ''port'' (VInt 70000)]"
proof -
  let ?srcs = "[dict_source [(''debug'', VBool True)]]"
  let ?ov = "[(''port'', VInt 70000), (''max_connections'', VInt 0)]"
  let ?M = "merged demo_world (heap demo_state ! config demo_parser) ?srcs ?ov"
  let ?T = "map (transform_item (theap demo_state ! transformers demo_parser)) ?M"
  have sup: "\<forall>src \<in> set ?srcs. supported src"
    by (simp add: supported_def dict_source_def)
  have wf: "distinct (map fst (heap demo_state ! config demo_parser))" by code_simp
  have vs: "vheap demo_state ! validators demo_parser =
              [] @ (''port'', port_validator) # [(''max_connections'', max_connections_validator)]"
    by (simp add: demo_state_def demo_parser_def init_def empty_state_def add_transformer_def
                  add_validator_def)
  have k: "dict_get ?T ''port'' = Some (VInt 70000)" by code_simp
  have rej: "\<not> port_validator (VInt 70000)" by (simp add: port_validator_def)
  have ev: "concat (map source_events ?srcs)
              @ transformer_calls (theap demo_state ! transformers demo_parser) ?M
              @ validator_calls ?T [] @ [CallValidator ''port'' (VInt 70000)]
            = [CallTransformer ''host'' (VStr ''localhost''), CallValidator ''port'' (VInt 70000)]"
    by code_simp
  have "returned (parse demo_world demo_parser ?srcs ?ov demo_state)
          = Inl (validation_error ''port'' (VInt 70000)) \<and>
        new_events demo_state (snd (parse demo_world demo_parser ?srcs ?ov demo_state))
          = concat (map source_events ?srcs)
              @ transformer_calls (theap demo_state ! transformers demo_parser) ?M
              @ validator_calls ?T [] @ [CallValidator ''port'' (VInt 70000)]"
    using validation_fails_iff_rejected [OF sup wf refl refl, of demo_world ?ov,
            THEN conjunct2, THEN conjunct2, rule_format,
            of "[]" "''port''" port_validator
               "[(''max_connections'', max_connections_validator)]" "VInt 70000"]
          vs k rej
    by simp
  then show ?thesis using sup wf rej ev by simp
qed













end
